theory Spec2Isabelle
  imports Main "HOL-Library.Word" "HOL-Library.Sublist"
begin

section \<open>The CRX container decoder of \<open>crx_utils.py\<close>\<close>

text \<open>
  The development embeds \<open>ChromeWebStoreURLBuilder.crx_to_zip\<close> and its helpers
  \<open>_parse_crx2_header\<close>, \<open>_parse_crx3_header\<close>, \<open>_find_zip_in_data\<close> and
  \<open>_find_zip_offset\<close>. A Python \<open>bytes\<close> object is a list of 8-bit words, a Python
  integer that is a length or an offset is a natural number, and a raised exception is the
  left summand of the result. The right summand is the byte string that the call hands to
  \<open>f.write\<close>, that is, the content of the output file.

  Two things decide the result of a call besides the code of the repository. Both depend on
  the Python version (\<open>setup.py\<close> admits 3.7 to 3.12) and are parameters of the embedding.

  \<^item> \<open>probe\<close> stands for the verification that follows the write on the header-driven
    path: \<open>zipfile.ZipFile\<close> on the written file, the listing of its names and the report
    of its size. A \<open>BadZipFile\<close> is caught there and printed as a warning. Any other
    exception leaves the block and reaches the handler of \<open>crx_to_zip\<close>, after the file
    has been written. \<open>probe z\<close> is that exception for a file of content \<open>z\<close>, and
    \<open>None\<close> when there is none.

  \<^item> \<open>n\<close> is the number of further nested calls of \<open>crx_to_zip\<close> for which the call
    stack of the interpreter has room; a call that is made has room for the calls to its
    helpers and to the library. A chain of nested calls that needs more than \<open>n\<close> runs
    into the \<open>RecursionError\<close> of the interpreter. Which call of the chain raises it, and
    whether the handler of that frame can still build its message, differs between the
    versions; this is not followed here, and the embedding gives \<open>None\<close> for such a call.

  Printing, and opening and writing the output file, are taken to succeed.
\<close>

subsection \<open>Bytes, exceptions and the library calls\<close>

type_synonym byte = "8 word"
type_synonym bytes = "byte list"

text \<open>
  The exceptions. \<open>NotImplementedError\<close> and \<open>OtherError\<close> (the name of any other
  exception class, and the message) are raised by library code only.
\<close>

datatype exn =
    ValueError string
  | IndexError string
  | StructError string
  | NotImplementedError string
  | OtherError string string

text \<open>\<open>str(e)\<close>: the message of an exception built from one string.\<close>

fun exn_str :: "exn \<Rightarrow> string" where
  "exn_str (ValueError m) = m"
| "exn_str (IndexError m) = m"
| "exn_str (StructError m) = m"
| "exn_str (NotImplementedError m) = m"
| "exn_str (OtherError c m) = m"

text \<open>The literals \<open>b'Cr24'\<close>, \<open>b'PK\x03\x04'\<close>, \<open>b'PK\x05\x06'\<close>, \<open>b'PK\x07\x08'\<close>.\<close>

definition CR24 :: bytes where
  "CR24 = [0x43, 0x72, 0x32, 0x34]"

definition PK34 :: bytes where
  "PK34 = [0x50, 0x4B, 0x03, 0x04]"

definition PK56 :: bytes where
  "PK56 = [0x50, 0x4B, 0x05, 0x06]"

definition PK78 :: bytes where
  "PK78 = [0x50, 0x4B, 0x07, 0x08]"

definition zip_signatures :: "bytes list" where
  "zip_signatures = [PK34, PK56, PK78]"

text \<open>
  \<open>data.find(sig)\<close>: the lowest index at which \<open>sig\<close> occurs in \<open>data\<close>;
  \<open>None\<close> stands for the result \<open>-1\<close>.
\<close>

fun bytes_find :: "bytes \<Rightarrow> bytes \<Rightarrow> nat option" where
  "bytes_find [] sig = (if sig = [] then Some 0 else None)"
| "bytes_find (x # xs) sig =
     (if take (length sig) (x # xs) = sig then Some 0
      else map_option Suc (bytes_find xs sig))"

text \<open>\<open>crx_data[i]\<close>: the byte as an integer, \<open>IndexError\<close> out of range.\<close>

definition byte_at :: "bytes \<Rightarrow> nat \<Rightarrow> exn + nat" where
  "byte_at data i =
     (if i < length data then Inr (unat (data ! i))
      else Inl (IndexError ''index out of range''))"

text \<open>
  \<open>struct.unpack('<I', b)[0]\<close>: four bytes read as a little-endian unsigned integer,
  \<open>struct.error\<close> on a buffer of any other length.
\<close>

fun unpack_le32 :: "bytes \<Rightarrow> exn + nat" where
  "unpack_le32 [b0, b1, b2, b3] =
     Inr (unat b0 + 256 * unat b1 + 65536 * unat b2 + 16777216 * unat b3)"
| "unpack_le32 b = Inl (StructError ''unpack requires a buffer of 4 bytes'')"

text \<open>The decimal digits of \<open>f"{version}"\<close>.\<close>

definition digit_char :: "nat \<Rightarrow> char" where
  "digit_char d = ''0123456789'' ! d"

function string_of_nat :: "nat \<Rightarrow> string" where
  "string_of_nat n =
     (if n < 10 then [digit_char n]
      else string_of_nat (n div 10) @ [digit_char (n mod 10)])"
  by pat_completeness auto
termination
  by (relation "measure id") auto

declare string_of_nat.simps [simp del]

subsection \<open>The signature scan\<close>

text \<open>
  The loop \<open>for sig in zip_signatures\<close> of \<open>_find_zip_in_data\<close>: the first signature
  of the list that occurs anywhere in the data decides, and the result is the slice
  \<open>data[pos:]\<close>.
\<close>

fun find_zip_in_data_loop :: "bytes \<Rightarrow> bytes list \<Rightarrow> bytes option" where
  "find_zip_in_data_loop data [] = None"
| "find_zip_in_data_loop data (sig # sigs) =
     (case bytes_find data sig of
        Some pos \<Rightarrow> Some (drop pos data)
      | None \<Rightarrow> find_zip_in_data_loop data sigs)"

definition find_zip_in_data :: "bytes \<Rightarrow> bytes option" where
  "find_zip_in_data data = find_zip_in_data_loop data zip_signatures"

text \<open>
  \<open>_find_zip_offset\<close>. The test \<open>if zip_data:\<close> fails on \<open>None\<close> and on the
  empty byte string. The difference \<open>len(crx_data) - len(zip_data)\<close> is never
  negative, \<open>zip_data\<close> being a slice of \<open>crx_data\<close>.
\<close>

definition find_zip_offset :: "bytes \<Rightarrow> exn + nat" where
  "find_zip_offset crx_data =
     (case find_zip_in_data crx_data of
        Some zip_data \<Rightarrow>
          (if zip_data \<noteq> [] then Inr (length crx_data - length zip_data)
           else Inl (ValueError ''No ZIP signature found in CRX file''))
      | None \<Rightarrow> Inl (ValueError ''No ZIP signature found in CRX file''))"

subsection \<open>The header parsers\<close>

definition parse_crx2_header :: "bytes \<Rightarrow> exn + nat" where
  "parse_crx2_header crx_data =
     (if length crx_data < 16 then Inl (ValueError ''CRX2 file too small'')
      else
        (case unpack_le32 (take 4 (drop 8 crx_data)) of
           Inl e \<Rightarrow> Inl e
         | Inr pubkey_length \<Rightarrow>
             (case unpack_le32 (take 4 (drop 12 crx_data)) of
                Inl e \<Rightarrow> Inl e
              | Inr sig_length \<Rightarrow>
                  (if pubkey_length > 10000 \<or> sig_length > 10000
                   then find_zip_offset crx_data
                   else Inr (16 + pubkey_length + sig_length)))))"

definition parse_crx3_header :: "bytes \<Rightarrow> exn + nat" where
  "parse_crx3_header crx_data =
     (if length crx_data < 12 then Inl (ValueError ''CRX3 file too small'')
      else
        (case unpack_le32 (take 4 (drop 8 crx_data)) of
           Inl e \<Rightarrow> Inl e
         | Inr header_length \<Rightarrow>
             (if header_length > 10000 then find_zip_offset crx_data
              else Inr (12 + header_length))))"

subsection \<open>The decoder\<close>

text \<open>
  The handler \<open>except Exception as e: raise ValueError(f"Error converting CRX to ZIP: {e}")\<close>
  that encloses the whole body of \<open>crx_to_zip\<close>.
\<close>

definition convert_prefix :: string where
  "convert_prefix = ''Error converting CRX to ZIP: ''"

definition reraise :: "exn \<Rightarrow> exn" where
  "reraise e = ValueError (convert_prefix @ exn_str e)"

fun try_except :: "exn + bytes \<Rightarrow> exn + bytes" where
  "try_except (Inl e) = Inl (reraise e)"
| "try_except (Inr z) = Inr z"

text \<open>
  \<open>crx_to_zip\<close>, branch by branch as in the source. The recursive call on a nested
  container stands inside the \<open>try\<close> block, so what it raises passes through the
  handler of the calling level once more. On the header-driven path the payload is written
  and then verified; what the verification raises turns the call into a failure.
\<close>

function crx_to_zip :: "(bytes \<Rightarrow> exn option) \<Rightarrow> nat \<Rightarrow> bytes \<Rightarrow> (exn + bytes) option" where
  "crx_to_zip probe n crx_data =
     map_option try_except
       (if length crx_data \<ge> 4 \<and> take 4 crx_data = PK34 then Some (Inr crx_data)
        else if length crx_data < 8 \<or> take 4 crx_data \<noteq> CR24 then
          (case find_zip_in_data crx_data of
             Some zip_data \<Rightarrow>
               (if zip_data \<noteq> [] then Some (Inr zip_data)
                else Some (Inl (ValueError ''Invalid CRX file: Does not start with Cr24'')))
           | None \<Rightarrow> Some (Inl (ValueError ''Invalid CRX file: Does not start with Cr24'')))
        else
          (case byte_at crx_data 4 of
             Inl e \<Rightarrow> Some (Inl e)
           | Inr version \<Rightarrow>
               (if version \<noteq> 2 \<and> version \<noteq> 3
                then Some (Inl (ValueError
                                 (''Unexpected CRX format version: '' @ string_of_nat version)))
                else
                  (case (if version = 2 then parse_crx2_header crx_data
                         else parse_crx3_header crx_data) of
                     Inl e \<Rightarrow> Some (Inl e)
                   | Inr zip_start_offset \<Rightarrow>
                       (if zip_start_offset \<ge> length crx_data
                        then Some (Inl (ValueError ''CRX file appears to be corrupted''))
                        else if version = 3 \<and> length (drop zip_start_offset crx_data) \<ge> 4
                                \<and> take 4 (drop zip_start_offset crx_data) = CR24
                        then (if n = 0 then None
                              else crx_to_zip probe (n - 1) (drop zip_start_offset crx_data))
                        else
                          (case probe (drop zip_start_offset crx_data) of
                             Some e \<Rightarrow> Some (Inl e)
                           | None \<Rightarrow> Some (Inr (drop zip_start_offset crx_data))))))))"
  by pat_completeness auto

subsection \<open>Inputs and predicates used by the properties\<close>

text \<open>
  A CRX3 container built around a payload: the magic, the version word, the length of the
  header as a little-endian 32-bit integer, the header, the payload. \<open>nested\<close> wraps
  a payload in one container per header of the list, the first header outermost.
\<close>

definition le32 :: "nat \<Rightarrow> bytes" where
  "le32 n = [word_of_nat n, word_of_nat (n div 256), word_of_nat (n div 65536),
             word_of_nat (n div 16777216)]"

definition wrap_crx3 :: "bytes \<Rightarrow> bytes \<Rightarrow> bytes" where
  "wrap_crx3 hdr payload = CR24 @ [3, 0, 0, 0] @ le32 (length hdr) @ hdr @ payload"

definition nested :: "bytes list \<Rightarrow> bytes \<Rightarrow> bytes" where
  "nested hdrs payload = foldr wrap_crx3 hdrs payload"

text \<open>
  A ZIP archive of 68 bytes: one central directory entry of 46 bytes (signature
  \<open>PK\x01\x02\<close>, made by version 20, version needed to extract 99, every other field
  zero) and the end-of-central-directory record of 22 bytes (one entry, a directory of 46
  bytes at offset 0, no comment). \<open>zipfile.ZipFile\<close> raises
  \<open>NotImplementedError('zip file version 9.9')\<close> on it, the version needed being above
  the 63 that the module supports.
\<close>

definition zip_v99 :: bytes where
  "zip_v99 =
     [0x50, 0x4B, 1, 2, 20, 0, 99, 0, 0, 0, 0, 0, 0, 0, 0, 0, 0, 0, 0, 0, 0, 0, 0, 0, 0, 0, 0, 0,
      0, 0, 0, 0, 0, 0, 0, 0, 0, 0, 0, 0, 0, 0, 0, 0, 0, 0,
      0x50, 0x4B, 5, 6, 0, 0, 0, 0, 1, 0, 1, 0, 46, 0, 0, 0, 0, 0, 0, 0, 0, 0]"

text \<open>
  The verification as it behaves on the file contents of the examples below. It raises the
  \<open>NotImplementedError\<close> on \<open>zip_v99\<close>, and on \<open>zip_v99\<close> behind the four bytes
  \<open>PK\x03\x04\<close> (bytes in front of an archive do not keep \<open>zipfile\<close> from reading
  its directory). Nothing leaves the block on the other contents used there: these are all
  shorter than the 22 bytes of an end-of-central-directory record, so \<open>zipfile.ZipFile\<close>
  raises \<open>BadZipFile\<close> on them, which is caught.
\<close>

definition sample_probe :: "bytes \<Rightarrow> exn option" where
  "sample_probe z =
     (if z = zip_v99 \<or> z = PK34 @ zip_v99
      then Some (NotImplementedError ''zip file version 9.9'')
      else None)"

text \<open>The byte string begins with one of the three ZIP signatures.\<close>

definition has_zip_signature :: "bytes \<Rightarrow> bool" where
  "has_zip_signature z = (take 4 z = PK34 \<or> take 4 z = PK56 \<or> take 4 z = PK78)"

text \<open>
  The inputs on which a call of \<open>crx_to_zip\<close> reaches \<open>_find_zip_in_data\<close>:
  they are not plain ZIP data, and either the magic test fails or a length field of the
  header is above 10000.
\<close>

definition exceeds_ceiling :: "exn + nat \<Rightarrow> bool" where
  "exceeds_ceiling r = (case r of Inl e \<Rightarrow> False | Inr n \<Rightarrow> n > 10000)"

definition scan_fallback_runs :: "bytes \<Rightarrow> bool" where
  "scan_fallback_runs raw =
     (take 4 raw \<noteq> PK34 \<and>
      (length raw < 8 \<or> take 4 raw \<noteq> CR24 \<or>
       (raw ! 4 = 2 \<and> 16 \<le> length raw \<and>
          (exceeds_ceiling (unpack_le32 (take 4 (drop 8 raw))) \<or>
           exceeds_ceiling (unpack_le32 (take 4 (drop 12 raw))))) \<or>
       (raw ! 4 = 3 \<and> 12 \<le> length raw \<and>
          exceeds_ceiling (unpack_le32 (take 4 (drop 8 raw))))))"

text \<open>
  The position the scan settles on: the lowest occurrence of the first signature, in the
  order of \<open>zip_signatures\<close>, that occurs in the data at all.
\<close>

definition scan_position :: "bytes \<Rightarrow> nat option" where
  "scan_position raw =
     (case bytes_find raw PK34 of
        Some p \<Rightarrow> Some p
      | None \<Rightarrow>
          (case bytes_find raw PK56 of
             Some p \<Rightarrow> Some p
           | None \<Rightarrow> bytes_find raw PK78))"

subsection \<open>Facts about the scan, and termination of the decoder\<close>

text \<open>
  \<open>bytes_find\<close> returns an occurrence of the signature, the lowest one, and \<open>None\<close>
  only when there is none.
\<close>

lemma bytes_find_Some:
  "bytes_find d s = Some p \<Longrightarrow> take (length s) (drop p d) = s \<and> p \<le> length d"
proof (induction d arbitrary: p)
  case Nil
  then show ?case by (simp split: if_splits)
next
  case (Cons x xs)
  show ?case
  proof (cases "take (length s) (x # xs) = s")
    case True
    with Cons.prems show ?thesis by simp
  next
    case False
    with Cons.prems obtain q where q: "bytes_find xs s = Some q" and p: "p = Suc q"
      by auto
    from Cons.IH [OF q] p show ?thesis by simp
  qed
qed

lemma bytes_find_first:
  "bytes_find d s = Some p \<Longrightarrow> q < p \<Longrightarrow> take (length s) (drop q d) \<noteq> s"
proof (induction d arbitrary: p q)
  case Nil
  then show ?case by (simp split: if_splits)
next
  case (Cons x xs)
  from Cons.prems have ne: "take (length s) (x # xs) \<noteq> s"
    by (auto split: if_splits)
  with Cons.prems obtain p' where p': "bytes_find xs s = Some p'" and p: "p = Suc p'"
    by auto
  show ?case
  proof (cases q)
    case 0
    with ne show ?thesis by simp
  next
    case (Suc q')
    with Cons.prems p have "q' < p'" by simp
    from Cons.IH [OF p' this] Suc show ?thesis by simp
  qed
qed

lemma bytes_find_None:
  "bytes_find d s = None \<Longrightarrow> take (length s) (drop q d) \<noteq> s"
proof (induction d arbitrary: q)
  case Nil
  then show ?case by (auto split: if_splits)
next
  case (Cons x xs)
  from Cons.prems have ne: "take (length s) (x # xs) \<noteq> s" and n: "bytes_find xs s = None"
    by (auto split: if_splits)
  show ?case
  proof (cases q)
    case 0
    with ne show ?thesis by simp
  next
    case (Suc q')
    with Cons.IH [OF n, of q'] show ?thesis by simp
  qed
qed

lemma find_zip_in_data_loop_Some:
  "find_zip_in_data_loop d sigs = Some z \<Longrightarrow>
     \<exists>s p. s \<in> set sigs \<and> bytes_find d s = Some p \<and> z = drop p d"
  by (induction sigs) (auto split: option.splits)

lemma zip_signatures_length: "s \<in> set zip_signatures \<Longrightarrow> length s = 4"
  by (auto simp: zip_signatures_def PK34_def PK56_def PK78_def)

lemma find_zip_in_data_Some:
  assumes "find_zip_in_data d = Some z"
  shows "\<exists>p. p + 4 \<le> length d \<and> z = drop p d \<and> take 4 z \<in> set zip_signatures"
proof -
  from assms obtain s p where s: "s \<in> set zip_signatures"
    and f: "bytes_find d s = Some p" and z: "z = drop p d"
    unfolding find_zip_in_data_def by (blast dest: find_zip_in_data_loop_Some)
  from s have l: "length s = 4" by (rule zip_signatures_length)
  from bytes_find_Some [OF f] l have t: "take 4 (drop p d) = s" by simp
  then have "length (take 4 (drop p d)) = 4" using l by simp
  then have "p + 4 \<le> length d" by simp
  with t s z show ?thesis by auto
qed

lemma find_zip_offset_Inr:
  assumes "find_zip_offset d = Inr off"
  shows "off + 4 \<le> length d \<and> take 4 (drop off d) \<in> set zip_signatures
         \<and> find_zip_in_data d = Some (drop off d)"
proof -
  from assms obtain z where z: "find_zip_in_data d = Some z"
    and off: "off = length d - length z"
    by (auto simp: find_zip_offset_def split: option.splits if_splits)
  from find_zip_in_data_Some [OF z] obtain p where
    p: "p + 4 \<le> length d" "z = drop p d" "take 4 z \<in> set zip_signatures" by blast
  from p off have "off = p" by simp
  with p z show ?thesis by simp
qed

lemma CR24_not_signature: "CR24 \<notin> set zip_signatures"
  by (simp add: zip_signatures_def PK34_def PK56_def PK78_def CR24_def)

lemma parse_crx3_header_nested:
  assumes "parse_crx3_header d = Inr off" and "take 4 (drop off d) = CR24"
  shows "12 \<le> off"
proof (rule ccontr)
  assume "\<not> 12 \<le> off"
  with assms(1) have "find_zip_offset d = Inr off"
    by (auto simp: parse_crx3_header_def split: if_splits sum.splits)
  from find_zip_offset_Inr [OF this] assms(2) CR24_not_signature show False by simp
qed

text \<open>
  The recursive call receives a strictly shorter buffer: a nested payload begins with
  \<open>Cr24\<close>, so its offset did not come from the scan, and is \<open>12 + header_length\<close>.
  The length of the buffer is the measure; the room on the call stack plays no part.
\<close>

termination crx_to_zip
proof (relation "measure (\<lambda>(probe, n, crx_data). length crx_data)", goal_cases)
  case 1
  show ?case by simp
next
  case (2 probe n crx_data version zip_start_offset)
  then have "parse_crx3_header crx_data = Inr zip_start_offset" by simp
  from parse_crx3_header_nested [OF this] 2 show ?case by simp
qed

declare crx_to_zip.simps [simp del]

subsection \<open>Facts about single calls of the decoder\<close>

text \<open>
  Every input lies in the domain of the recursion: the chain of nested calls that starts
  at any buffer is finite.
\<close>

lemmas crx_to_zip_wf_rule = "crx_to_zip.termination"

lemma crx_to_zip_dom_all: "crx_to_zip_dom (probe, n, raw)"
proof -
  have "All crx_to_zip_dom"
  proof (rule crx_to_zip_wf_rule [of "measure (\<lambda>(probe, n, crx_data). length crx_data)"],
         goal_cases)
    case 1
    show ?case by simp
  next
    case (2 probe n crx_data version zip_start_offset)
    then have "parse_crx3_header crx_data = Inr zip_start_offset" by simp
    from parse_crx3_header_nested [OF this] 2 show ?case by simp
  qed
  then show ?thesis by simp
qed

lemma try_except_Inr [simp]: "try_except r = Inr z \<longleftrightarrow> r = Inr z"
  by (cases r) simp_all


lemmas sig_defs = CR24_def PK34_def PK56_def PK78_def

lemmas sample_defs = sample_probe_def zip_v99_def PK34_def

lemma sig_neq [simp]:
  "PK34 \<noteq> CR24" "CR24 \<noteq> PK34" "PK56 \<noteq> CR24" "CR24 \<noteq> PK56" "PK78 \<noteq> CR24" "CR24 \<noteq> PK78"
  "PK34 \<noteq> PK56" "PK56 \<noteq> PK34" "PK34 \<noteq> PK78" "PK78 \<noteq> PK34" "PK56 \<noteq> PK78" "PK78 \<noteq> PK56"
  by (simp_all add: sig_defs)

lemma length_sigs [simp]:
  "length CR24 = 4" "length PK34 = 4" "length PK56 = 4" "length PK78 = 4"
  by (simp_all add: sig_defs)

lemma take4_length: "take 4 d = s \<Longrightarrow> length s = 4 \<Longrightarrow> 4 \<le> length d"
  by (metis length_take min.cobounded1 min_def nat_le_linear)


lemma length_le32 [simp]: "length (le32 n) = 4"
  by (simp add: le32_def)

text \<open>Plain ZIP data.\<close>

lemma crx_to_zip_PK34: 
  assumes "take 4 raw = PK34"
  shows "crx_to_zip probe n raw = Some (Inr raw)"
proof -
  from assms have "4 \<le> length raw" by (rule take4_length) simp
  with assms show ?thesis by (simp add: crx_to_zip.simps)
qed






lemma find_zip_in_data_suffix: "find_zip_in_data d = Some z \<Longrightarrow> suffix z d"
  by (auto dest!: find_zip_in_data_Some simp: suffix_drop)


text \<open>
  One step of the call relation of the definition: the caller is a version 3 container, the
  callee receives the slice at the offset that the header gives, and the result of the
  caller is that of the callee passed through the handler.
\<close>

lemma crx_to_zip_rel_call:
  assumes "crx_to_zip_rel (probe', n', payload) (probe, n, raw)"
  shows "\<exists>off. 12 \<le> off \<and> off < length raw \<and> payload = drop off raw"
    and "crx_to_zip probe n raw = map_option try_except (crx_to_zip probe' n' payload)"
proof -
  from assms obtain off where
    pk: "\<not> (4 \<le> length raw \<and> take 4 raw = PK34)" and
    magic: "\<not> (length raw < 8 \<or> take 4 raw \<noteq> CR24)" and
    version: "byte_at raw 4 = Inr 3" and
    parse: "parse_crx3_header raw = Inr off" and
    inside: "off < length raw" and
    nested: "4 \<le> length (drop off raw)" "take 4 (drop off raw) = CR24" and
    room: "n \<noteq> 0" and
    args: "payload = drop off raw" "probe' = probe" "n' = n - 1"
    by (auto elim!: crx_to_zip_rel.cases)
  from parse_crx3_header_nested [OF parse nested(2)] have off: "12 \<le> off" .
  with inside args show "\<exists>off. 12 \<le> off \<and> off < length raw \<and> payload = drop off raw"
    by blast
  from pk magic version parse inside nested room args
  show "crx_to_zip probe n raw = map_option try_except (crx_to_zip probe' n' payload)"
    by (subst crx_to_zip.simps) simp
qed

text \<open>
  Along a chain of nested calls, the success of the outermost call is the success of the
  innermost one.
\<close>

lemma crx_to_zip_chain_success:
  assumes "crx_to_zip_rel\<^sup>*\<^sup>* a b"
    and "(case b of (probe, n, raw) \<Rightarrow> crx_to_zip probe n raw) = Some (Inr z)"
  shows "(case a of (probe, n, raw) \<Rightarrow> crx_to_zip probe n raw) = Some (Inr z)"
  using assms
proof (induction rule: rtranclp_induct)
  case base
  then show ?case .
next
  case (step b c)
  obtain pb nb rb where b: "b = (pb, nb, rb)" by (cases b)
  obtain pc nc rc where c: "c = (pc, nc, rc)" by (cases c)
  from step.hyps(2) b c have "crx_to_zip pc nc rc = map_option try_except (crx_to_zip pb nb rb)"
    by (simp add: crx_to_zip_rel_call(2))
  with step.prems c have "crx_to_zip pb nb rb = Some (Inr z)" by auto
  with step.IH b show ?case by simp
qed


subsection \<open>What the scan returns\<close>

text \<open>
  \<open>_find_zip_in_data\<close> settles on \<open>scan_position\<close>. Where the magic test fails, the
  slice from that position is the result; where a length field is above the ceiling, the
  position is the offset at which the payload is cut, written and verified.
\<close>

lemma bytes_find_here: "take (length s) d = s \<Longrightarrow> bytes_find d s = Some 0"
  by (cases d) auto

lemma has_zip_signature_iff: "has_zip_signature z \<longleftrightarrow> take 4 z \<in> set zip_signatures"
  by (auto simp: has_zip_signature_def zip_signatures_def)

lemma find_zip_in_data_scan:
  "find_zip_in_data raw = map_option (\<lambda>p. drop p raw) (scan_position raw)"
  by (simp add: find_zip_in_data_def zip_signatures_def scan_position_def split: option.splits)

lemma scan_position_Some:
  assumes "scan_position raw = Some p"
  shows "p + 4 \<le> length raw \<and> has_zip_signature (drop p raw)"
proof -
  from assms have "find_zip_in_data raw = Some (drop p raw)"
    by (simp add: find_zip_in_data_scan)
  from find_zip_in_data_Some [OF this] obtain q where
    q: "q + 4 \<le> length raw" "drop p raw = drop q raw" "take 4 (drop p raw) \<in> set zip_signatures"
    by blast
  have "length (take 4 (drop p raw)) = 4"
    using q(3) by (auto dest: zip_signatures_length)
  then have "p + 4 \<le> length raw" by simp
  with q(3) show ?thesis by (simp add: has_zip_signature_iff)
qed

lemma find_zip_offset_scan:
  "find_zip_offset raw =
     (case scan_position raw of
        Some p \<Rightarrow> Inr p
      | None \<Rightarrow> Inl (ValueError ''No ZIP signature found in CRX file''))"
proof (cases "scan_position raw")
  case None
  then show ?thesis by (simp add: find_zip_offset_def find_zip_in_data_scan)
next
  case (Some p)
  from scan_position_Some [OF Some] have "p + 4 \<le> length raw" by simp
  with Some show ?thesis by (simp add: find_zip_offset_def find_zip_in_data_scan)
qed

lemma unpack_le32_Inr: "length b = 4 \<Longrightarrow> \<exists>n. unpack_le32 b = Inr n"
proof -
  assume "length b = 4"
  then obtain b0 b1 b2 b3 where "b = [b0, b1, b2, b3]"
    by (auto simp: length_Suc_conv numeral_eq_Suc)
  then show ?thesis by simp
qed

lemma scan_result_magic:
  assumes "take 4 raw \<noteq> PK34" and "length raw < 8 \<or> take 4 raw \<noteq> CR24"
  shows "crx_to_zip probe n raw =
           Some (case scan_position raw of
                   Some p \<Rightarrow> Inr (drop p raw)
                 | None \<Rightarrow> Inl (ValueError (convert_prefix @
                              ''Invalid CRX file: Does not start with Cr24'')))"
proof (cases "scan_position raw")
  case None
  with assms show ?thesis
    by (subst crx_to_zip.simps) (simp add: find_zip_in_data_scan reraise_def)
next
  case (Some p)
  from scan_position_Some [OF Some] have "p + 4 \<le> length raw" by simp
  with Some assms show ?thesis
    by (subst crx_to_zip.simps) (simp add: find_zip_in_data_scan)
qed

lemma scan_result_ceiling:
  assumes pk: "take 4 raw \<noteq> PK34" and magic: "\<not> (length raw < 8 \<or> take 4 raw \<noteq> CR24)"
    and version: "byte_at raw 4 = Inr v" "v = 2 \<or> v = 3"
    and parse: "(if v = 2 then parse_crx2_header raw else parse_crx3_header raw)
                  = find_zip_offset raw"
  shows "crx_to_zip probe n raw =
           Some (case scan_position raw of
                   Some p \<Rightarrow>
                     (case probe (drop p raw) of
                        None \<Rightarrow> Inr (drop p raw)
                      | Some e \<Rightarrow> Inl (reraise e))
                 | None \<Rightarrow> Inl (ValueError (convert_prefix @
                              ''No ZIP signature found in CRX file'')))"
proof (cases "scan_position raw")
  case None
  with assms show ?thesis
    by (subst crx_to_zip.simps) (auto simp: find_zip_offset_scan reraise_def)
next
  case (Some p)
  from scan_position_Some [OF Some] have p: "p + 4 \<le> length raw"
    and z: "take 4 (drop p raw) \<in> set zip_signatures"
    by (simp_all add: has_zip_signature_iff)
  from z CR24_not_signature have "take 4 (drop p raw) \<noteq> CR24" by auto
  with Some p assms show ?thesis
    by (subst crx_to_zip.simps) (auto simp: find_zip_offset_scan split: option.splits)
qed

lemma crx_to_zip_scan_fallback:
  assumes "scan_fallback_runs raw"
  shows "crx_to_zip probe n raw =
           Some (case scan_position raw of
                   None \<Rightarrow> Inl (ValueError (convert_prefix @
                     (if length raw < 8 \<or> take 4 raw \<noteq> CR24
                      then ''Invalid CRX file: Does not start with Cr24''
                      else ''No ZIP signature found in CRX file'')))
                 | Some p \<Rightarrow>
                     (if length raw < 8 \<or> take 4 raw \<noteq> CR24 then Inr (drop p raw)
                      else (case probe (drop p raw) of
                              None \<Rightarrow> Inr (drop p raw)
                            | Some e \<Rightarrow> Inl (reraise e))))"
proof (cases "length raw < 8 \<or> take 4 raw \<noteq> CR24")
  case True
  with assms scan_result_magic [of raw probe n] show ?thesis
    by (simp add: scan_fallback_runs_def split: option.splits)
next
  case False
  from assms have pk: "take 4 raw \<noteq> PK34" by (simp add: scan_fallback_runs_def)
  from assms False consider
      (v2) "raw ! 4 = 2" "16 \<le> length raw"
           "exceeds_ceiling (unpack_le32 (take 4 (drop 8 raw))) \<or>
            exceeds_ceiling (unpack_le32 (take 4 (drop 12 raw)))"
    | (v3) "raw ! 4 = 3" "12 \<le> length raw"
           "exceeds_ceiling (unpack_le32 (take 4 (drop 8 raw)))"
    by (auto simp: scan_fallback_runs_def)
  then have "crx_to_zip probe n raw =
           Some (case scan_position raw of
                   Some p \<Rightarrow>
                     (case probe (drop p raw) of
                        None \<Rightarrow> Inr (drop p raw)
                      | Some e \<Rightarrow> Inl (reraise e))
                 | None \<Rightarrow> Inl (ValueError (convert_prefix @
                              ''No ZIP signature found in CRX file'')))"
  proof cases
    case v2
    from v2(2) obtain K S where
      K: "unpack_le32 (take 4 (drop 8 raw)) = Inr K" and
      S: "unpack_le32 (take 4 (drop 12 raw)) = Inr S"
      using unpack_le32_Inr [of "take 4 (drop 8 raw)"] unpack_le32_Inr [of "take 4 (drop 12 raw)"]
      by auto
    with v2 have "parse_crx2_header raw = find_zip_offset raw"
      by (auto simp: parse_crx2_header_def exceeds_ceiling_def)
    moreover from v2 have "byte_at raw 4 = Inr 2" by (simp add: byte_at_def)
    ultimately show ?thesis
      using scan_result_ceiling [OF pk False, of 2] by simp
  next
    case v3
    from v3(2) obtain H where H: "unpack_le32 (take 4 (drop 8 raw)) = Inr H"
      using unpack_le32_Inr [of "take 4 (drop 8 raw)"] by auto
    with v3 have "parse_crx3_header raw = find_zip_offset raw"
      by (auto simp: parse_crx3_header_def exceeds_ceiling_def)
    moreover from v3 have "byte_at raw 4 = Inr 3" by (simp add: byte_at_def)
    ultimately show ?thesis
      using scan_result_ceiling [OF pk False, of 3] by simp
  qed
  with False show ?thesis by (simp split: option.splits)
qed

text \<open>A successful scan gives a result that begins with a ZIP signature.\<close>

lemma crx_to_zip_scan_signature:
  assumes "scan_fallback_runs raw" and "crx_to_zip probe n raw = Some (Inr z)"
  shows "has_zip_signature z"
proof -
  from crx_to_zip_scan_fallback [OF assms(1), of probe n] assms(2)
  obtain p where "scan_position raw = Some p" "z = drop p raw"
    by (auto split: option.splits if_splits)
  with scan_position_Some [of raw p] show ?thesis by simp
qed

subsection \<open>Nested containers\<close>







section \<open>Properties of the decoder\<close>

subsection \<open>Header-driven extraction\<close>







subsection \<open>Plain ZIP input\<close>

text \<open>
  C3. For every input whose first four bytes are the local-file signature
  \<open>PK\x03\x04\<close>, whatever follows, the decoder succeeds and returns the input unchanged.
\<close>

theorem already_zip_unchanged:
  assumes "take 4 raw = PK34"
  shows "crx_to_zip probe n raw = Some (Inr raw)"
  using assms by (rule crx_to_zip_PK34)

theorem already_zip_unchanged_witness:
  "crx_to_zip sample_probe 0 [0x50, 0x4B, 3, 4, 0xDE, 0xAD]
     = Some (Inr [0x50, 0x4B, 3, 4, 0xDE, 0xAD])"
  using already_zip_unchanged
    [where raw = "[0x50, 0x4B, 3, 4, 0xDE, 0xAD]" and probe = sample_probe and n = 0]
  by (simp add: PK34_def)

subsection \<open>The signature scan\<close>




subsection \<open>What a successful result begins with\<close>

text \<open>
  C5, as the code has it. On every success path of the decoder on which the last call of
  the chain of nested-container calls takes the plain-ZIP branch or the scan fallback, the
  returned bytes begin with one of the three ZIP signatures. (The chain is given by the call
  relation of the definition; a chain of no step is the outermost call itself.) The
  guarantee does not extend to a payload cut at the offset computed from the length fields
  of a CRX2 or CRX3 header: such a payload need not begin with a signature.
\<close>

theorem scan_paths_give_signature:
  assumes "crx_to_zip probe n raw = Some (Inr z)"
    and "crx_to_zip_rel\<^sup>*\<^sup>* (probe', m, inner) (probe, n, raw)"
    and "take 4 inner = PK34 \<or> scan_fallback_runs inner"
  shows "has_zip_signature z"
proof -
  from crx_to_zip_chain_success [OF assms(2)] assms(1)
  have inner: "crx_to_zip probe' m inner = Some (Inr z)" by simp
  show ?thesis
  proof (cases "take 4 inner = PK34")
    case True
    with inner crx_to_zip_PK34 [OF True, of probe' m] show ?thesis
      by (simp add: has_zip_signature_def)
  next
    case False
    with assms(3) have "scan_fallback_runs inner" by simp
    then show ?thesis using inner by (rule crx_to_zip_scan_signature)
  qed
qed

theorem scan_paths_give_signature_witness:
  "crx_to_zip sample_probe 1
     (wrap_crx3 [] [0x43, 0x72, 0x32, 0x34, 3, 0, 0, 0, 0xFF, 0xFF, 0, 0, 0x50, 0x4B, 7, 8, 1])
     = Some (Inr [0x50, 0x4B, 7, 8, 1])
   \<and> has_zip_signature [0x50, 0x4B, 7, 8, 1]"
proof -
  let ?inner = "[0x43, 0x72, 0x32, 0x34, 3, 0, 0, 0, 0xFF, 0xFF, 0, 0, 0x50, 0x4B, 7, 8, 1]
                  :: bytes"
  have "crx_to_zip_rel (sample_probe, 1 - 1, drop 12 (wrap_crx3 [] ?inner))
          (sample_probe, 1, wrap_crx3 [] ?inner)"
    by (rule crx_to_zip_rel.intros [where b = 3])
       (simp_all add: wrap_crx3_def le32_def byte_at_def parse_crx3_header_def sig_defs)
  then have rel: "crx_to_zip_rel (sample_probe, 0, ?inner) (sample_probe, 1, wrap_crx3 [] ?inner)"
    by (simp add: wrap_crx3_def le32_def sig_defs)
  have run: "crx_to_zip sample_probe 1 (wrap_crx3 [] ?inner) = Some (Inr [0x50, 0x4B, 7, 8, 1])"
    by (simp add: crx_to_zip.simps wrap_crx3_def le32_def byte_at_def parse_crx3_header_def
          find_zip_offset_def find_zip_in_data_def zip_signatures_def sample_defs sig_defs)
  have path: "take 4 ?inner = PK34 \<or> scan_fallback_runs ?inner"
    by (simp add: scan_fallback_runs_def exceeds_ceiling_def sig_defs)
  from rel have chain:
    "crx_to_zip_rel\<^sup>*\<^sup>* (sample_probe, 0, ?inner) (sample_probe, 1, wrap_crx3 [] ?inner)"
    by (rule r_into_rtranclp)
  from scan_paths_give_signature [OF run chain path] run
  show ?thesis by simp
qed

text \<open>
  A CRX3 container and a CRX2 container with empty headers around the single byte
  \<open>0x41\<close>: both decode successfully to that byte, which is no ZIP signature.
\<close>

theorem header_payload_unchecked_counterexample:
  "crx_to_zip sample_probe 100 [0x43, 0x72, 0x32, 0x34, 3, 0, 0, 0, 0, 0, 0, 0, 0x41]
     = Some (Inr [0x41])
   \<and> crx_to_zip sample_probe 100
       [0x43, 0x72, 0x32, 0x34, 2, 0, 0, 0, 0, 0, 0, 0, 0, 0, 0, 0, 0x41]
     = Some (Inr [0x41])
   \<and> \<not> has_zip_signature [0x41]"
  by (simp add: crx_to_zip.simps byte_at_def parse_crx3_header_def parse_crx2_header_def
        has_zip_signature_def sample_defs sig_defs)

subsection \<open>Nesting depth\<close>




subsection \<open>Termination\<close>

text \<open>
  C7. The decoder terminates on every input: every argument lies in the domain of the
  recursion. Whenever the call on \<open>raw\<close> makes the recursive call on \<open>payload\<close>
  (\<open>crx_to_zip_rel\<close>, the call relation of the definition), the payload is the slice of
  \<open>raw\<close> at an offset that is at least 12 and strictly below the length of \<open>raw\<close>, so
  it is strictly shorter than \<open>raw\<close>, and the result of the call is that of the
  recursive call passed through the handler.
\<close>

theorem nested_call_shrinks:
  "crx_to_zip_dom (probe, n, raw) \<and>
   (crx_to_zip_rel (probe', n', payload) (probe, n, raw) \<longrightarrow>
      (\<exists>off. 12 \<le> off \<and> off < length raw \<and> payload = drop off raw)
      \<and> length payload < length raw
      \<and> crx_to_zip probe n raw = map_option try_except (crx_to_zip probe' n' payload))"
proof (intro conjI impI)
  show "crx_to_zip_dom (probe, n, raw)" by (rule crx_to_zip_dom_all)
next
  assume rel: "crx_to_zip_rel (probe', n', payload) (probe, n, raw)"
  from crx_to_zip_rel_call(1) [OF rel]
  show off: "\<exists>off. 12 \<le> off \<and> off < length raw \<and> payload = drop off raw" .
  from off show "length payload < length raw" by auto
  from crx_to_zip_rel_call(2) [OF rel]
  show "crx_to_zip probe n raw = map_option try_except (crx_to_zip probe' n' payload)" .
qed

theorem nested_call_shrinks_witness:
  "crx_to_zip_rel (sample_probe, 4, [0x43, 0x72, 0x32, 0x34, 3, 0, 0, 0])
     (sample_probe, 5,
      [0x43, 0x72, 0x32, 0x34, 3, 0, 0, 0, 1, 0, 0, 0, 9, 0x43, 0x72, 0x32, 0x34, 3, 0, 0, 0])
   \<and> length ([0x43, 0x72, 0x32, 0x34, 3, 0, 0, 0] :: bytes)
       < length ([0x43, 0x72, 0x32, 0x34, 3, 0, 0, 0, 1, 0, 0, 0, 9,
                  0x43, 0x72, 0x32, 0x34, 3, 0, 0, 0] :: bytes)"
proof -
  let ?raw = "[0x43, 0x72, 0x32, 0x34, 3, 0, 0, 0, 1, 0, 0, 0, 9,
               0x43, 0x72, 0x32, 0x34, 3, 0, 0, 0] :: bytes"
  let ?payload = "[0x43, 0x72, 0x32, 0x34, 3, 0, 0, 0] :: bytes"
  have "crx_to_zip_rel (sample_probe, 5 - 1, drop 13 ?raw) (sample_probe, 5, ?raw)"
    by (rule crx_to_zip_rel.intros [where b = 3])
       (simp_all add: byte_at_def parse_crx3_header_def sig_defs)
  then have rel: "crx_to_zip_rel (sample_probe, 4, ?payload) (sample_probe, 5, ?raw)" by simp
  with nested_call_shrinks [of sample_probe 5 ?raw sample_probe 4 ?payload]
  show ?thesis by simp
qed

subsection \<open>Decoding a result again\<close>

text \<open>
  C8, as the code has it. Decoding a successful result again returns it unchanged when the
  result begins with \<open>PK\x03\x04\<close>, when it begins with \<open>PK\x05\x06\<close> and contains no
  \<open>PK\x03\x04\<close>, and when it begins with \<open>PK\x07\x08\<close> and contains neither
  \<open>PK\x03\x04\<close> nor \<open>PK\x05\x06\<close>.
\<close>

theorem redecode_idempotent:
  assumes "crx_to_zip probe n raw = Some (Inr z)"
    and "take 4 z = PK34
         \<or> (take 4 z = PK56 \<and> bytes_find z PK34 = None)
         \<or> (take 4 z = PK78 \<and> bytes_find z PK34 = None \<and> bytes_find z PK56 = None)"
  shows "crx_to_zip probe n z = Some (Inr z)"
proof -
  from assms(2) consider (a) "take 4 z = PK34"
    | (b) "take 4 z = PK56" "bytes_find z PK34 = None"
    | (c) "take 4 z = PK78" "bytes_find z PK34 = None" "bytes_find z PK56 = None"
    by auto
  then show ?thesis
  proof cases
    case a
    then show ?thesis by (rule crx_to_zip_PK34)
  next
    case b
    from b(1) have "bytes_find z PK56 = Some 0" by (intro bytes_find_here) simp
    with b have "scan_position z = Some 0" by (simp add: scan_position_def)
    with b(1) scan_result_magic [of z probe n] show ?thesis by simp
  next
    case c
    from c(1) have "bytes_find z PK78 = Some 0" by (intro bytes_find_here) simp
    with c have "scan_position z = Some 0" by (simp add: scan_position_def)
    with c(1) scan_result_magic [of z probe n] show ?thesis by simp
  qed
qed

theorem redecode_idempotent_witness:
  "crx_to_zip sample_probe 0 [0x50, 0x4B, 5, 6, 0, 0] = Some (Inr [0x50, 0x4B, 5, 6, 0, 0])"
  using redecode_idempotent
    [where raw = "[0x43, 0x72, 0x32, 0x34, 3, 0, 0, 0, 0, 0, 0, 0, 0x50, 0x4B, 5, 6, 0, 0]"
       and z = "[0x50, 0x4B, 5, 6, 0, 0]" and probe = sample_probe and n = 0]
  by (simp add: crx_to_zip.simps byte_at_def parse_crx3_header_def sample_defs sig_defs)

text \<open>
  A CRX3 container with an empty header around \<open>PK\x05\x06PK\x03\x04\<close> decodes to that
  payload, which begins with a ZIP signature; decoding the payload again returns only its
  last four bytes.
\<close>

theorem redecode_counterexample:
  "crx_to_zip sample_probe 100 ([0x43, 0x72, 0x32, 0x34, 3, 0, 0, 0, 0, 0, 0, 0] @ PK56 @ PK34)
     = Some (Inr (PK56 @ PK34))
   \<and> has_zip_signature (PK56 @ PK34)
   \<and> crx_to_zip sample_probe 100 (PK56 @ PK34) = Some (Inr PK34)
   \<and> crx_to_zip sample_probe 100 (PK56 @ PK34) \<noteq> Some (Inr (PK56 @ PK34))"
  by (simp add: crx_to_zip.simps byte_at_def parse_crx3_header_def has_zip_signature_def
        find_zip_in_data_def zip_signatures_def sample_defs sig_defs)

subsection \<open>The result is a slice of the input\<close>

text \<open>
  C9. Whenever the decoder succeeds, through any number of nested containers, the bytes it
  returns are a suffix of the input, so there are at most as many of them as the input has.
\<close>

theorem decoded_is_suffix:
  "crx_to_zip probe n raw = Some (Inr z) \<Longrightarrow> suffix z raw \<and> length z \<le> length raw"
proof (induction probe n raw arbitrary: z rule: crx_to_zip.induct)
  case (1 probe n d)
  have "suffix z d"
    using "1.prems" "1.IH"
    apply (subst (asm) crx_to_zip.simps)
    apply (auto split: if_splits option.splits sum.splits
                simp: find_zip_in_data_suffix suffix_drop
                intro: suffix_order.trans [OF _ suffix_drop])
    done
  then show ?case by (simp add: suffix_length_le)
qed

theorem decoded_is_suffix_witness:
  "suffix ([0x50, 0x4B, 3, 4, 9] :: bytes)
     [0x43, 0x72, 0x32, 0x34, 3, 0, 0, 0, 0, 0, 0, 0,
      0x43, 0x72, 0x32, 0x34, 3, 0, 0, 0, 1, 0, 0, 0, 7, 0x50, 0x4B, 3, 4, 9]"
  using decoded_is_suffix
    [where raw = "[0x43, 0x72, 0x32, 0x34, 3, 0, 0, 0, 0, 0, 0, 0,
                   0x43, 0x72, 0x32, 0x34, 3, 0, 0, 0, 1, 0, 0, 0, 7, 0x50, 0x4B, 3, 4, 9]"
       and z = "[0x50, 0x4B, 3, 4, 9]" and probe = sample_probe and n = 1]
  by (simp add: crx_to_zip.simps CR24_def PK34_def byte_at_def parse_crx3_header_def
        sample_defs)

subsection \<open>Failures\<close>



end
